theory Spec2Isabelle
  imports Complex_Main "HOL-Library.Multiset"
begin

section \<open>seisbench.util.trace_ops: a shallow embedding\<close>

text \<open>
  The module \<^verbatim>\<open>src/seisbench/util/trace_ops.py\<close> has four functions:
  \<^verbatim>\<open>trace_has_spikes\<close>, \<^verbatim>\<open>stream_to_array\<close>, \<^verbatim>\<open>rotate_stream_to_ZNE\<close> and
  \<^verbatim>\<open>waveform_id_to_network_station_location\<close>. Each is embedded below under its own
  name. Python's \<^verbatim>\<open>float\<close> and numpy's \<^verbatim>\<open>float64\<close> are idealised as \<^typ>\<open>real\<close>:
  the arithmetic of the model is exact, and NaN and the infinities are not values of it.
  Python's \<^verbatim>\<open>int\<close> is \<^typ>\<open>int\<close>. Every exception the code can raise is a value of
  \<open>py_error\<close>.
\<close>

subsection \<open>Python exceptions\<close>

text \<open>
  The exception classes the module meets. All derive from \<^verbatim>\<open>Exception\<close> but the last two,
  which derive from \<^verbatim>\<open>BaseException\<close> only; \<open>PlainException\<close> is an instance of
  \<^verbatim>\<open>Exception\<close> itself, as obspy raises for missing channel metadata.
\<close>

datatype py_error =
    ValueError | ZeroDivisionError | IndexError | NotImplementedError | AttributeError
  | ObsPyException | PlainException | KeyboardInterrupt | SystemExit


subsection \<open>The identifier normalizer\<close>

text \<open>
  \<^verbatim>\<open>waveform_id.split(".")\<close>: the substrings between the dots, in order. The split of a
  string always has at least one part (\<^verbatim>\<open>"".split(".") == [""]\<close>), so the empty-list
  branch of the case below is never taken (lemma \<open>str_split_nonempty\<close>).
\<close>

fun str_split :: "string \<Rightarrow> string list" where
  "str_split [] = [[]]"
| "str_split (c # cs) =
     (if c = CHR ''.'' then [] # str_split cs
      else (case str_split cs of
              [] \<Rightarrow> [[c]]
            | p # ps \<Rightarrow> (c # p) # ps))"

text \<open>\<^verbatim>\<open>".".join(parts)\<close>\<close>

fun str_join :: "string list \<Rightarrow> string" where
  "str_join [] = []"
| "str_join [p] = p"
| "str_join (p # q # ps) = p @ CHR ''.'' # str_join (q # ps)"

text \<open>
  \<^verbatim>\<open>
  parts = waveform_id.split(".")
  if len(parts) != 4:
      return waveform_id
  else:
      return ".".join(parts[:-1])
  \<close>
  \<^verbatim>\<open>parts[:-1]\<close> is the list without its last element, \<^const>\<open>butlast\<close>.
\<close>

definition waveform_id_to_network_station_location :: "string \<Rightarrow> string" where
  "waveform_id_to_network_station_location waveform_id =
     (let parts = str_split waveform_id
      in if length parts \<noteq> 4 then waveform_id
         else str_join (butlast parts))"

subsection \<open>Python and numpy primitives used by the assembler\<close>

text \<open>\<^verbatim>\<open>int(x)\<close> of a float: truncation toward zero.\<close>

definition py_int :: "real \<Rightarrow> int" where
  "py_int x = (if 0 \<le> x then \<lfloor>x\<rfloor> else \<lceil>x\<rceil>)"

text \<open>
  \<^verbatim>\<open>min(...)\<close> and \<^verbatim>\<open>max(...)\<close> over a generator: \<^verbatim>\<open>ValueError\<close> on an empty one.
\<close>

definition py_min :: "real list \<Rightarrow> py_error + real" where
  "py_min xs = (case xs of [] \<Rightarrow> Inl ValueError | x # rest \<Rightarrow> Inr (fold min rest x))"

definition py_max :: "real list \<Rightarrow> py_error + real" where
  "py_max xs = (case xs of [] \<Rightarrow> Inl ValueError | x # rest \<Rightarrow> Inr (fold max rest x))"

text \<open>
  A bound \<open>i\<close> of a slice \<^verbatim>\<open>a[i:j]\<close> over a sequence of length \<open>n\<close>: a negative bound counts
  from the end, and the result is clipped to \<open>0..n\<close>.
\<close>

definition slice_bound :: "int \<Rightarrow> int \<Rightarrow> int" where
  "slice_bound n i = (if i < 0 then max 0 (i + n) else min i n)"

text \<open>\<^verbatim>\<open>xs[:l]\<close>\<close>

definition get_prefix :: "'a list \<Rightarrow> int \<Rightarrow> 'a list" where
  "get_prefix xs l = take (nat (slice_bound (int (length xs)) l)) xs"

text \<open>
  \<^verbatim>\<open>row[a:b] = v\<close> on a numpy row: the target is the positions \<open>lo..<lo + k\<close>; \<open>v\<close> must
  have exactly \<open>k\<close> elements or be a single element (which is broadcast); anything else
  raises \<^verbatim>\<open>ValueError\<close> (could not broadcast).
\<close>

definition set_slice :: "real list \<Rightarrow> int \<Rightarrow> int \<Rightarrow> real list \<Rightarrow> py_error + real list" where
  "set_slice row a b v =
     (let n = int (length row);
          lo = nat (slice_bound n a);
          k = nat (slice_bound n b) - lo
      in if length v = k then Inr (take lo row @ v @ drop (lo + k) row)
         else if length v = 1 then Inr (take lo row @ replicate k (hd v) @ drop (lo + k) row)
         else Inl ValueError)"

text \<open>\<^verbatim>\<open>np.zeros((rows, cols), dtype="float64")\<close>\<close>

definition np_zeros :: "nat \<Rightarrow> nat \<Rightarrow> real list list" where
  "np_zeros rows cols = replicate rows (replicate cols 0)"

text \<open>\<^verbatim>\<open>np.mean\<close> of one row, and \<^verbatim>\<open>data -= np.mean(data, axis=1, keepdims=True)\<close>.\<close>

definition np_mean :: "real list \<Rightarrow> real" where
  "np_mean row = sum_list row / real (length row)"

definition subtract_row_means :: "real list list \<Rightarrow> real list list" where
  "subtract_row_means data = map (\<lambda>row. map (\<lambda>x. x - np_mean row) row) data"

subsection \<open>Traces, streams and the logger\<close>

text \<open>
  An obspy trace, with the attributes the module reads: the four codes of
  \<^verbatim>\<open>trace.id\<close>, \<^verbatim>\<open>trace.stats.starttime\<close>, \<^verbatim>\<open>trace.stats.endtime\<close>,
  \<^verbatim>\<open>trace.stats.sampling_rate\<close>, \<^verbatim>\<open>trace.stats.npts\<close> and the buffer \<^verbatim>\<open>trace.data\<close>.
  Times are seconds on the real line; the difference of two times is a float in the code.
  A stream is the list of its traces.
\<close>

record trace =
  stats_network :: string
  stats_station :: string
  stats_location :: string
  stats_channel :: string
  stats_starttime :: real
  stats_endtime :: real
  stats_sampling_rate :: real
  stats_npts :: int
  trace_data :: "real list"

type_synonym stream = "trace list"

text \<open>\<^verbatim>\<open>trace.id\<close>: network, station, location and channel joined by dots.\<close>

definition trace_id :: "trace \<Rightarrow> string" where
  "trace_id t =
     stats_network t @ CHR ''.'' # stats_station t @ CHR ''.'' # stats_location t
       @ CHR ''.'' # stats_channel t"

text \<open>
  One call of \<^verbatim>\<open>seisbench.logger.warning\<close>. The message is
  \<^verbatim>\<open>Found multiple traces for {id} starting at {time}. Completeness will be wrong in
  case of overlapping traces.\<close>; the record keeps the two interpolated values.
\<close>

datatype log_record = Warning string real

subsection \<open>The array assembler\<close>

text \<open>
  The inner loop, lines 54 to 58, over the traces of \<open>c_stream\<close>; its state is the array
  and \<open>c_completeness\<close>:
  \<^verbatim>\<open>
  for trace in c_stream:
      start_sample = int((trace.stats.starttime - starttime) * sampling_rate)
      l = min(len(trace.data), samples - start_sample)
      data[c_idx, start_sample : start_sample + l] = trace.data[:l]
      c_completeness += l
  \<close>
\<close>

fun copy_traces ::
  "real \<Rightarrow> real \<Rightarrow> int \<Rightarrow> nat \<Rightarrow> trace list \<Rightarrow> real list list \<times> real
     \<Rightarrow> py_error + real list list \<times> real" where
  "copy_traces starttime sampling_rate samples c_idx [] (data, c_completeness) =
     Inr (data, c_completeness)"
| "copy_traces starttime sampling_rate samples c_idx (trace # rest) (data, c_completeness) =
     (let start_sample = py_int ((stats_starttime trace - starttime) * sampling_rate);
          l = min (int (length (trace_data trace))) (samples - start_sample)
      in case set_slice (data ! c_idx) start_sample (start_sample + l)
                (get_prefix (trace_data trace) l) of
           Inl e \<Rightarrow> Inl e
         | Inr row \<Rightarrow>
             copy_traces starttime sampling_rate samples c_idx rest
               (data[c_idx := row], c_completeness + real_of_int l))"

text \<open>
  The outer loop, lines 44 to 60, over \<^verbatim>\<open>enumerate(component_order)\<close>; its state is the
  array, \<open>completeness\<close> and the records the logger has received. The collaborator
  \<^verbatim>\<open>stream.select(channel=...)\<close> is the parameter \<open>select\<close>: it is given the pattern
  \<^verbatim>\<open>f"??{c}"\<close> and keeps the traces that match, in the stream's order.
  \<^verbatim>\<open>sorted(c_stream, key=lambda x: x.stats.npts)\<close> is a stable sort, as \<^const>\<open>sort_key\<close>
  is. \<^verbatim>\<open>c_completeness / samples\<close> raises \<^verbatim>\<open>ZeroDivisionError\<close> when \<open>samples\<close> is 0.
  \<open>c_stream[0]\<close> is read only when \<open>c_stream\<close> has more than one trace, and then
  \<open>stream\<close> is not empty either.
\<close>

fun component_loop ::
  "(string \<Rightarrow> trace \<Rightarrow> bool) \<Rightarrow> stream \<Rightarrow> real \<Rightarrow> real \<Rightarrow> int \<Rightarrow> nat \<Rightarrow> string
     \<Rightarrow> real list list \<times> real \<times> log_record list
     \<Rightarrow> log_record list \<times> (py_error + real list list \<times> real)" where
  "component_loop select stream starttime sampling_rate samples c_idx []
       (data, completeness, warnings) = (warnings, Inr (data, completeness))"
| "component_loop select stream starttime sampling_rate samples c_idx (c # cs)
       (data, completeness, warnings) =
     (let c_stream = filter (select (''??'' @ [c])) stream;
          warnings' = (if length c_stream > 1
                  then warnings @ [Warning (trace_id (hd c_stream)) (stats_starttime (hd stream))]
                  else warnings);
          c_stream' = (if length c_stream > 1 then sort_key stats_npts c_stream
                       else c_stream)
      in case copy_traces starttime sampling_rate samples c_idx c_stream' (data, 0) of
           Inl e \<Rightarrow> (warnings', Inl e)
         | Inr (data', c_completeness) \<Rightarrow>
             if samples = 0 then (warnings', Inl ZeroDivisionError)
             else component_loop select stream starttime sampling_rate samples (Suc c_idx) cs
                    (data', completeness + min 1 (c_completeness / real_of_int samples), warnings'))"

text \<open>
  Lines 36 to 60: the time span, the number of samples, the zero array and the loop.
  \<^verbatim>\<open>np.zeros\<close> raises \<^verbatim>\<open>ValueError\<close> on a negative dimension. The result is the
  logger's records and either the exception raised or \<open>starttime\<close>, the filled array and
  the sum of the components' completeness.
\<close>

definition fill_array ::
  "(string \<Rightarrow> trace \<Rightarrow> bool) \<Rightarrow> stream \<Rightarrow> string
     \<Rightarrow> log_record list \<times> (py_error + real \<times> real list list \<times> real)" where
  "fill_array select stream component_order =
     (case py_min (map stats_starttime stream) of
        Inl e \<Rightarrow> ([], Inl e)
      | Inr starttime \<Rightarrow>
     (case py_max (map stats_endtime stream) of
        Inl e \<Rightarrow> ([], Inl e)
      | Inr endtime \<Rightarrow>
     (case stream of
        [] \<Rightarrow> ([], Inl IndexError)
      | trace0 # _ \<Rightarrow>
          (let sampling_rate = stats_sampling_rate trace0;
               samples = py_int ((endtime - starttime) * sampling_rate) + 1
           in if samples < 0 then ([], Inl ValueError)
              else (case component_loop select stream starttime sampling_rate samples 0
                           component_order
                           (np_zeros (length component_order) (nat samples), 0, []) of
                      (warnings, Inl e) \<Rightarrow> (warnings, Inl e)
                    | (warnings, Inr (data, completeness)) \<Rightarrow>
                        (warnings, Inr (starttime, data, completeness)))))))"

text \<open>
  The whole function: lines 62 to 65 after the loop. \<^verbatim>\<open>completeness /= len(component_order)\<close>
  raises \<^verbatim>\<open>ZeroDivisionError\<close> for an empty component order.
\<close>

definition stream_to_array ::
  "(string \<Rightarrow> trace \<Rightarrow> bool) \<Rightarrow> stream \<Rightarrow> string
     \<Rightarrow> log_record list \<times> (py_error + real \<times> real list list \<times> real)" where
  "stream_to_array select stream component_order =
     (case fill_array select stream component_order of
        (warnings, Inl e) \<Rightarrow> (warnings, Inl e)
      | (warnings, Inr (starttime, data, completeness)) \<Rightarrow>
          if length component_order = 0 then (warnings, Inl ZeroDivisionError)
          else (warnings, Inr (starttime, subtract_row_means data,
                          completeness / real (length component_order))))"

text \<open>
  A selector for the examples. Modelled from the spec: a trace matches the pattern when
  its channel code is any two leading characters followed by the component code
  (\<open>?\<close> stands for any single character).
\<close>

fun glob_match :: "string \<Rightarrow> string \<Rightarrow> bool" where
  "glob_match [] [] = True"
| "glob_match (p # ps) (x # xs) = ((p = CHR ''?'' \<or> p = x) \<and> glob_match ps xs)"
| "glob_match [] (x # xs) = False"
| "glob_match (p # ps) [] = False"

definition select_channel :: "string \<Rightarrow> trace \<Rightarrow> bool" where
  "select_channel pattern t = glob_match pattern (stats_channel t)"

subsection \<open>The spike detector\<close>

text \<open>\<^verbatim>\<open>np.abs(data)\<close>, elementwise on a two-dimensional array (a list of rows).\<close>

definition np_abs :: "real list list \<Rightarrow> real list list" where
  "np_abs a = map (map abs) a"

text \<open>
  \<^verbatim>\<open>np.quantile(a, q, axis=1, keepdims=True)\<close>: one value per row, kept as a column. How
  numpy computes the quantile of one row (its interpolation method, and what it raises) is
  the parameter \<open>row_quantile\<close>; the first row that raises ends the call.
\<close>

fun np_quantile ::
  "(real list \<Rightarrow> real \<Rightarrow> py_error + real) \<Rightarrow> real list list \<Rightarrow> real \<Rightarrow> py_error + real list" where
  "np_quantile row_quantile [] q = Inr []"
| "np_quantile row_quantile (row # rows) q =
     (case row_quantile row q of
        Inl e \<Rightarrow> Inl e
      | Inr v \<Rightarrow>
          (case np_quantile row_quantile rows q of
             Inl e \<Rightarrow> Inl e
           | Inr vs \<Rightarrow> Inr (v # vs)))"

text \<open>
  \<^verbatim>\<open>data > column\<close>: the column has one value per row and is broadcast along the row.
\<close>

definition np_greater :: "real list list \<Rightarrow> real list \<Rightarrow> bool list list" where
  "np_greater data column = map2 (\<lambda>row v. map (\<lambda>x. v < x) row) data column"

text \<open>\<^verbatim>\<open>np.any\<close> over a two-dimensional array of booleans.\<close>

definition np_any :: "bool list list \<Rightarrow> bool" where
  "np_any m = list_ex (list_ex (\<lambda>b. b)) m"

text \<open>
  \<^verbatim>\<open>
  q = np.quantile(np.abs(data), quantile, axis=1, keepdims=True)
  return np.any(data > q * factor)
  \<close>
  The defaults of the source are \<open>factor = 25\<close> and \<open>quantile = 0.975\<close>.
\<close>

definition trace_has_spikes ::
  "(real list \<Rightarrow> real \<Rightarrow> py_error + real) \<Rightarrow> real list list \<Rightarrow> real \<Rightarrow> real \<Rightarrow> py_error + bool" where
  "trace_has_spikes row_quantile data factor quantile =
     (case np_quantile row_quantile (np_abs data) quantile of
        Inl e \<Rightarrow> Inl e
      | Inr q \<Rightarrow> Inr (np_any (np_greater data (map (\<lambda>v. v * factor) q))))"

text \<open>
  A row quantile for the examples: numpy's default method (linear interpolation between
  the two nearest order statistics) in exact arithmetic. It raises for a quantile outside
  \<open>[0, 1]\<close> and for a row without samples.
\<close>

definition linear_quantile :: "real list \<Rightarrow> real \<Rightarrow> py_error + real" where
  "linear_quantile row q =
     (if q < 0 \<or> 1 < q then Inl ValueError
      else if row = [] then Inl IndexError
      else (let s = sort row;
                h = q * real (length row - 1);
                lo = nat \<lfloor>h\<rfloor>;
                hi = min (Suc lo) (length row - 1)
            in Inr (s ! lo + (h - real lo) * (s ! hi - s ! lo))))"

subsection \<open>The rotator\<close>


subsection \<open>The assembler in the words of the specification\<close>

text \<open>
  The quantities the specification names, for stating the claims: the earliest start and
  the latest end of the collection, its sample rate (that of the first trace), the output
  sample count with the floor, the offset of a trace and the clamped copy length.
\<close>

definition earliest_start :: "stream \<Rightarrow> real" where
  "earliest_start stream = Min (stats_starttime ` set stream)"

definition latest_end :: "stream \<Rightarrow> real" where
  "latest_end stream = Max (stats_endtime ` set stream)"

definition stream_rate :: "stream \<Rightarrow> real" where
  "stream_rate stream = stats_sampling_rate (hd stream)"

definition sample_count :: "stream \<Rightarrow> int" where
  "sample_count stream =
     \<lfloor>(latest_end stream - earliest_start stream) * stream_rate stream\<rfloor> + 1"

definition start_offset :: "real \<Rightarrow> real \<Rightarrow> trace \<Rightarrow> int" where
  "start_offset starttime sampling_rate t =
     py_int ((stats_starttime t - starttime) * sampling_rate)"

definition copy_length :: "real \<Rightarrow> real \<Rightarrow> int \<Rightarrow> trace \<Rightarrow> int" where
  "copy_length starttime sampling_rate samples t =
     min (int (length (trace_data t))) (samples - start_offset starttime sampling_rate t)"

text \<open>
  Copying a trace into a row: the samples \<open>0..<l\<close> of the trace replace the positions
  \<open>off..<off + l\<close> of the row.
\<close>

definition paste_trace :: "real \<Rightarrow> real \<Rightarrow> int \<Rightarrow> trace \<Rightarrow> real list \<Rightarrow> real list" where
  "paste_trace starttime sampling_rate samples t row =
     (let off = nat (start_offset starttime sampling_rate t);
          l = nat (copy_length starttime sampling_rate samples t)
      in take off row @ take l (trace_data t) @ drop (off + l) row)"

text \<open>
  The inputs the assembler is written for: a collection that is not empty, whose sample
  rate is not negative and whose traces do not end before they start. obspy keeps
  \<open>endtime = starttime + (npts - 1) / sampling_rate\<close> (and \<open>endtime = starttime\<close> for a
  trace without samples), so every stream with a positive sample rate is of this kind.
\<close>

definition wellformed :: "stream \<Rightarrow> bool" where
  "wellformed stream \<longleftrightarrow>
     stream \<noteq> [] \<and> 0 \<le> stats_sampling_rate (hd stream)
     \<and> (\<forall>t \<in> set stream. stats_starttime t \<le> stats_endtime t)"

text \<open>
  The traces a component code selects, the order in which the loop processes them, and
  the records the logger receives for the component.
\<close>

definition matched :: "(string \<Rightarrow> trace \<Rightarrow> bool) \<Rightarrow> stream \<Rightarrow> char \<Rightarrow> trace list" where
  "matched select stream c = filter (select (''??'' @ [c])) stream"

definition processing_order :: "(string \<Rightarrow> trace \<Rightarrow> bool) \<Rightarrow> stream \<Rightarrow> char \<Rightarrow> trace list" where
  "processing_order select stream c =
     (if length (matched select stream c) > 1 then sort_key stats_npts (matched select stream c)
      else matched select stream c)"

definition component_warning ::
  "(string \<Rightarrow> trace \<Rightarrow> bool) \<Rightarrow> stream \<Rightarrow> char \<Rightarrow> log_record list" where
  "component_warning select stream c =
     (if length (matched select stream c) > 1
      then [Warning (trace_id (hd (matched select stream c))) (stats_starttime (hd stream))]
      else [])"

text \<open>
  The samples copied for a component, its completeness, and its row before the means are
  subtracted.
\<close>

definition copied_samples :: "(string \<Rightarrow> trace \<Rightarrow> bool) \<Rightarrow> stream \<Rightarrow> char \<Rightarrow> int" where
  "copied_samples select stream c =
     (\<Sum>t\<leftarrow>matched select stream c.
        copy_length (earliest_start stream) (stream_rate stream) (sample_count stream) t)"

definition component_completeness ::
  "(string \<Rightarrow> trace \<Rightarrow> bool) \<Rightarrow> stream \<Rightarrow> char \<Rightarrow> real" where
  "component_completeness select stream c =
     min 1 (real_of_int (copied_samples select stream c) / real_of_int (sample_count stream))"

definition filled_row :: "(string \<Rightarrow> trace \<Rightarrow> bool) \<Rightarrow> stream \<Rightarrow> char \<Rightarrow> real list" where
  "filled_row select stream c =
     fold (paste_trace (earliest_start stream) (stream_rate stream) (sample_count stream))
       (processing_order select stream c) (replicate (nat (sample_count stream)) 0)"

text \<open>The rows of the array after the iterations for the components \<open>cs\<close>, from row \<open>c_idx\<close> on.\<close>

fun fill_rows ::
  "(char \<Rightarrow> real list \<Rightarrow> real list) \<Rightarrow> nat \<Rightarrow> string \<Rightarrow> real list list \<Rightarrow> real list list" where
  "fill_rows f c_idx [] data = data"
| "fill_rows f c_idx (c # cs) data =
     fill_rows f (Suc c_idx) cs (data[c_idx := f c (data ! c_idx)])"

subsection \<open>A collection for the examples\<close>

text \<open>
  Three traces of station \<open>XX.STA.00\<close> at 1 sample per second: two on channel \<open>HHZ\<close>
  (2 samples from second 2, and 4 samples from second 0) and one on \<open>HHN\<close> (5 samples from
  second 1). The first trace of the collection is not the earliest one.
\<close>

definition example_trace :: "string \<Rightarrow> real \<Rightarrow> real \<Rightarrow> real list \<Rightarrow> trace" where
  "example_trace cha t0 t1 xs =
     \<lparr>stats_network = ''XX'', stats_station = ''STA'', stats_location = ''00'',
      stats_channel = cha, stats_starttime = t0, stats_endtime = t1,
      stats_sampling_rate = 1, stats_npts = int (length xs), trace_data = xs\<rparr>"

definition example_stream :: stream where
  "example_stream =
     [example_trace ''HHZ'' 2 3 [10, 20],
      example_trace ''HHZ'' 0 3 [1, 2, 3, 4],
      example_trace ''HHN'' 1 5 [5, 5, 5, 5, 5]]"

subsection \<open>Facts about splitting and joining\<close>

lemma str_split_nonempty: "str_split s \<noteq> []"
  by (induction s) (auto split: list.splits)

lemma str_split_no_dot: "p \<in> set (str_split s) \<Longrightarrow> CHR ''.'' \<notin> set p"
proof (induction s arbitrary: p)
  case Nil
  then show ?case by simp
next
  case (Cons c cs)
  show ?case
  proof (cases "c = CHR ''.''")
    case True
    with Cons show ?thesis by auto
  next
    case False
    obtain q qs where q: "str_split cs = q # qs"
      using str_split_nonempty [of cs] by (cases "str_split cs") auto
    with Cons False show ?thesis by auto
  qed
qed

lemma str_split_plain: "CHR ''.'' \<notin> set p \<Longrightarrow> str_split p = [p]"
  by (induction p) auto

lemma str_split_append_dot:
  "CHR ''.'' \<notin> set p \<Longrightarrow> str_split (p @ CHR ''.'' # s) = p # str_split s"
  by (induction p) auto

lemma str_split_join:
  "ps \<noteq> [] \<Longrightarrow> \<forall>p \<in> set ps. CHR ''.'' \<notin> set p \<Longrightarrow> str_split (str_join ps) = ps"
proof (induction ps rule: str_join.induct)
  case 1
  then show ?case by simp
next
  case (2 p)
  then show ?case by (simp add: str_split_plain)
next
  case (3 p q ps)
  then show ?case by (simp add: str_split_append_dot)
qed

lemma str_join_split: "str_join (str_split s) = s"
proof (induction s)
  case Nil
  then show ?case by simp
next
  case (Cons c cs)
  obtain q qs where q: "str_split cs = q # qs"
    using str_split_nonempty [of cs] by (cases "str_split cs") auto
  show ?case
  proof (cases "c = CHR ''.''")
    case True
    with Cons q show ?thesis by simp
  next
    case False
    with Cons q show ?thesis by (cases qs) auto
  qed
qed

lemma butlast_4: "length ps = 4 \<Longrightarrow> butlast ps = take 3 ps"
  by (simp add: butlast_conv_take)

subsection \<open>Facts about the assembler\<close>

lemma py_min_Min: "xs \<noteq> [] \<Longrightarrow> py_min xs = Inr (Min (set xs))"
  by (cases xs) (simp_all add: py_min_def Min.set_eq_fold [symmetric])

lemma py_max_Max: "xs \<noteq> [] \<Longrightarrow> py_max xs = Inr (Max (set xs))"
  by (cases xs) (simp_all add: py_max_def Max.set_eq_fold [symmetric])

lemma earliest_start_le: "t \<in> set stream \<Longrightarrow> earliest_start stream \<le> stats_starttime t"
  by (simp add: earliest_start_def)

lemma latest_end_ge: "t \<in> set stream \<Longrightarrow> stats_endtime t \<le> latest_end stream"
  by (simp add: latest_end_def)

lemma span_nonneg:
  assumes "wellformed stream"
  shows "0 \<le> (latest_end stream - earliest_start stream) * stream_rate stream"
proof -
  from assms obtain t where t: "t \<in> set stream" by (cases stream) (auto simp: wellformed_def)
  have "earliest_start stream \<le> stats_starttime t" using t by (rule earliest_start_le)
  also have "\<dots> \<le> stats_endtime t" using assms t by (simp add: wellformed_def)
  also have "\<dots> \<le> latest_end stream" using t by (rule latest_end_ge)
  finally have "0 \<le> latest_end stream - earliest_start stream" by simp
  moreover have "0 \<le> stream_rate stream" using assms by (simp add: wellformed_def stream_rate_def)
  ultimately show ?thesis by simp
qed

lemma py_int_floor: "0 \<le> x \<Longrightarrow> py_int x = \<lfloor>x\<rfloor>"
  by (simp add: py_int_def)

lemma sample_count_py_int:
  "wellformed stream \<Longrightarrow>
   py_int ((latest_end stream - earliest_start stream) * stream_rate stream) + 1 = sample_count stream"
  by (simp add: sample_count_def py_int_floor span_nonneg)

lemma sample_count_pos: "wellformed stream \<Longrightarrow> 1 \<le> sample_count stream"
  using span_nonneg [of stream] by (simp add: sample_count_def)

lemma offset_in_range:
  assumes wf: "wellformed stream" and t: "t \<in> set stream"
  shows "0 \<le> start_offset (earliest_start stream) (stream_rate stream) t"
    and "start_offset (earliest_start stream) (stream_rate stream) t < sample_count stream"
proof -
  let ?x = "(stats_starttime t - earliest_start stream) * stream_rate stream"
  have r: "0 \<le> stream_rate stream" using wf by (simp add: wellformed_def stream_rate_def)
  have lo: "0 \<le> stats_starttime t - earliest_start stream"
    using earliest_start_le [OF t] by simp
  have x0: "0 \<le> ?x" using lo r by simp
  have "stats_starttime t \<le> stats_endtime t" using wf t by (simp add: wellformed_def)
  also have "\<dots> \<le> latest_end stream" using t by (rule latest_end_ge)
  finally have "stats_starttime t - earliest_start stream \<le> latest_end stream - earliest_start stream"
    by simp
  then have le: "?x \<le> (latest_end stream - earliest_start stream) * stream_rate stream"
    using r by (rule mult_right_mono)
  show "0 \<le> start_offset (earliest_start stream) (stream_rate stream) t"
    using x0 by (simp add: start_offset_def py_int_floor)
  have "\<lfloor>?x\<rfloor> \<le> \<lfloor>(latest_end stream - earliest_start stream) * stream_rate stream\<rfloor>"
    using le by (rule floor_mono)
  then show "start_offset (earliest_start stream) (stream_rate stream) t < sample_count stream"
    using x0 by (simp add: start_offset_def py_int_floor sample_count_def)
qed

lemma set_slice_in_bounds:
  assumes "0 \<le> a" "0 \<le> l" "a + l \<le> int (length row)" "l \<le> int (length xs)"
  shows "set_slice row a (a + l) (get_prefix xs l) =
         Inr (take (nat a) row @ take (nat l) xs @ drop (nat a + nat l) row)"
proof -
  have a: "slice_bound (int (length row)) a = a" using assms by (simp add: slice_bound_def)
  have b: "slice_bound (int (length row)) (a + l) = a + l" using assms by (simp add: slice_bound_def)
  have c: "slice_bound (int (length xs)) l = l" using assms by (simp add: slice_bound_def)
  have k: "nat (a + l) - nat a = nat l" using assms by simp
  have len: "length (take (nat l) xs) = nat l" using assms by simp
  show ?thesis
    unfolding set_slice_def get_prefix_def Let_def a b c k using len by simp
qed

lemma copy_length_bounds:
  assumes "0 \<le> start_offset st sr t" "start_offset st sr t < samples"
  shows "0 \<le> copy_length st sr samples t"
    and "start_offset st sr t + copy_length st sr samples t \<le> samples"
    and "copy_length st sr samples t \<le> int (length (trace_data t))"
  using assms by (simp_all add: copy_length_def)

lemma paste_trace_length:
  assumes "0 \<le> start_offset st sr t" "start_offset st sr t < samples" "length row = nat samples"
  shows "length (paste_trace st sr samples t row) = length row"
proof -
  note b = copy_length_bounds [OF assms(1,2)]
  have "nat (start_offset st sr t) + nat (copy_length st sr samples t) \<le> nat samples"
    using assms(1) b by linarith
  moreover have "nat (copy_length st sr samples t) \<le> length (trace_data t)"
    using b by linarith
  ultimately show ?thesis
    using assms(3) by (auto simp: paste_trace_def Let_def)
qed

lemma fold_paste_length:
  assumes "\<forall>t\<in>set ts. 0 \<le> start_offset st sr t \<and> start_offset st sr t < samples"
    and "length row = nat samples"
  shows "length (fold (paste_trace st sr samples) ts row) = nat samples"
  using assms by (induction ts arbitrary: row) (simp_all add: paste_trace_length)

lemma copy_step:
  assumes "0 \<le> start_offset st sr t" "start_offset st sr t < samples" "length row = nat samples"
  shows "set_slice row (start_offset st sr t)
           (start_offset st sr t + copy_length st sr samples t)
           (get_prefix (trace_data t) (copy_length st sr samples t)) =
         Inr (paste_trace st sr samples t row)"
proof -
  note b = copy_length_bounds [OF assms(1,2)]
  have "start_offset st sr t + copy_length st sr samples t \<le> int (length row)"
    using assms b by simp
  from set_slice_in_bounds [OF assms(1) b(1) this b(3)]
  show ?thesis by (simp add: paste_trace_def Let_def)
qed

lemma copy_traces_in_range:
  assumes "\<forall>t\<in>set ts. 0 \<le> start_offset st sr t \<and> start_offset st sr t < samples"
    and "c_idx < length data" and "length (data ! c_idx) = nat samples"
  shows "copy_traces st sr samples c_idx ts (data, cc) =
         Inr (data[c_idx := fold (paste_trace st sr samples) ts (data ! c_idx)],
              cc + (\<Sum>t\<leftarrow>ts. real_of_int (copy_length st sr samples t)))"
  using assms
proof (induction ts arbitrary: data cc)
  case Nil
  then show ?case by simp
next
  case (Cons t ts)
  let ?row = "paste_trace st sr samples t (data ! c_idx)"
  have t: "0 \<le> start_offset st sr t" "start_offset st sr t < samples"
    using Cons.prems(1) by simp_all
  have step: "set_slice (data ! c_idx) (start_offset st sr t)
           (start_offset st sr t + copy_length st sr samples t)
           (get_prefix (trace_data t) (copy_length st sr samples t)) = Inr ?row"
    using t Cons.prems(3) by (rule copy_step)
  have len: "length ?row = nat samples"
    using paste_trace_length [OF t Cons.prems(3)] Cons.prems(3) by simp
  let ?d = "data[c_idx := ?row]"
  have ih: "copy_traces st sr samples c_idx ts (?d, cc + real_of_int (copy_length st sr samples t)) =
        Inr (?d[c_idx := fold (paste_trace st sr samples) ts (?d ! c_idx)],
             cc + real_of_int (copy_length st sr samples t) + (\<Sum>t\<leftarrow>ts. real_of_int (copy_length st sr samples t)))"
    using Cons.prems len by (intro Cons.IH) simp_all
  have "copy_traces st sr samples c_idx (t # ts) (data, cc) =
        copy_traces st sr samples c_idx ts (?d, cc + real_of_int (copy_length st sr samples t))"
    using step by (simp add: Let_def start_offset_def [symmetric] copy_length_def [symmetric])
  also note ih
  finally show ?case using Cons.prems(2) by (simp add: add.assoc)
qed

lemma fill_rows_length: "length (fill_rows f c_idx cs data) = length data"
  by (induction cs arbitrary: c_idx data) simp_all

lemma fill_rows_nth:
  "j < length data \<Longrightarrow> c_idx + length cs \<le> length data \<Longrightarrow>
   fill_rows f c_idx cs data ! j =
     (if c_idx \<le> j \<and> j < c_idx + length cs then f (cs ! (j - c_idx)) (data ! j) else data ! j)"
proof (induction cs arbitrary: c_idx data)
  case Nil
  then show ?case by auto
next
  case (Cons c cs)
  have "fill_rows f c_idx (c # cs) data ! j =
        fill_rows f (Suc c_idx) cs (data[c_idx := f c (data ! c_idx)]) ! j" by simp
  also have "\<dots> = (if Suc c_idx \<le> j \<and> j < Suc c_idx + length cs
                    then f (cs ! (j - Suc c_idx)) (data[c_idx := f c (data ! c_idx)] ! j)
                    else data[c_idx := f c (data ! c_idx)] ! j)"
    using Cons.prems by (intro Cons.IH) simp_all
  also have "\<dots> = (if c_idx \<le> j \<and> j < c_idx + length (c # cs)
                    then f ((c # cs) ! (j - c_idx)) (data ! j) else data ! j)"
    using Cons.prems by (cases "j = c_idx") (auto simp: nth_Cons')
  finally show ?case .
qed

lemma fill_rows_zeros:
  "fill_rows f 0 cs (replicate (length cs) z) = map (\<lambda>c. f c z) cs"
  by (rule nth_equalityI) (simp_all add: fill_rows_length fill_rows_nth)

lemma component_loop_Cons:
  "component_loop select stream st sr samples c_idx (c # cs) (data, compl, ws) =
     (case copy_traces st sr samples c_idx (processing_order select stream c) (data, 0) of
        Inl e \<Rightarrow> (ws @ component_warning select stream c, Inl e)
      | Inr (data', cc) \<Rightarrow>
          if samples = 0 then (ws @ component_warning select stream c, Inl ZeroDivisionError)
          else component_loop select stream st sr samples (Suc c_idx) cs
                 (data', compl + min 1 (cc / real_of_int samples),
                  ws @ component_warning select stream c))"
  by (auto simp: Let_def processing_order_def matched_def component_warning_def
           split: sum.split prod.split)

lemma component_loop_in_range:
  assumes rng: "\<forall>t\<in>set stream. 0 \<le> start_offset st sr t \<and> start_offset st sr t < samples"
    and pos: "0 < samples"
    and "c_idx + length cs \<le> length data"
    and "\<forall>i<length data. length (data ! i) = nat samples"
  shows "component_loop select stream st sr samples c_idx cs (data, compl, ws) =
     (ws @ concat (map (component_warning select stream) cs),
      Inr (fill_rows (\<lambda>c. fold (paste_trace st sr samples) (processing_order select stream c)) c_idx cs data,
           compl + (\<Sum>c\<leftarrow>cs. min 1 ((\<Sum>t\<leftarrow>processing_order select stream c.
                       real_of_int (copy_length st sr samples t)) / real_of_int samples))))"
  using assms(3,4)
proof (induction cs arbitrary: c_idx data compl ws)
  case Nil
  then show ?case by simp
next
  case (Cons c cs)
  let ?po = "processing_order select stream c"
  let ?row = "fold (paste_trace st sr samples) ?po (data ! c_idx)"
  have sub: "set ?po \<subseteq> set stream"
    by (auto simp: processing_order_def matched_def)
  then have rng': "\<forall>t\<in>set ?po. 0 \<le> start_offset st sr t \<and> start_offset st sr t < samples"
    using rng by blast
  have idx: "c_idx < length data" using Cons.prems(1) by simp
  have rowlen: "length (data ! c_idx) = nat samples" using Cons.prems(2) idx by simp
  have inner: "copy_traces st sr samples c_idx ?po (data, 0) =
      Inr (data[c_idx := ?row], 0 + (\<Sum>t\<leftarrow>?po. real_of_int (copy_length st sr samples t)))"
    using rng' idx rowlen by (rule copy_traces_in_range)
  have len': "\<forall>i<length (data[c_idx := ?row]). length (data[c_idx := ?row] ! i) = nat samples"
    using Cons.prems(2) idx fold_paste_length [OF rng' rowlen] by (auto simp: nth_list_update)
  have ih: "component_loop select stream st sr samples (Suc c_idx) cs
        (data[c_idx := ?row],
         compl + min 1 ((\<Sum>t\<leftarrow>?po. real_of_int (copy_length st sr samples t)) / real_of_int samples),
         ws @ component_warning select stream c) =
     ((ws @ component_warning select stream c) @ concat (map (component_warning select stream) cs),
      Inr (fill_rows (\<lambda>c. fold (paste_trace st sr samples) (processing_order select stream c)) (Suc c_idx) cs (data[c_idx := ?row]),
           compl + min 1 ((\<Sum>t\<leftarrow>?po. real_of_int (copy_length st sr samples t)) / real_of_int samples)
             + (\<Sum>c\<leftarrow>cs. min 1 ((\<Sum>t\<leftarrow>processing_order select stream c.
                       real_of_int (copy_length st sr samples t)) / real_of_int samples))))"
    using Cons.prems(1) len' by (intro Cons.IH) simp_all
  have "component_loop select stream st sr samples c_idx (c # cs) (data, compl, ws) =
        component_loop select stream st sr samples (Suc c_idx) cs
        (data[c_idx := ?row],
         compl + min 1 ((\<Sum>t\<leftarrow>?po. real_of_int (copy_length st sr samples t)) / real_of_int samples),
         ws @ component_warning select stream c)"
    using pos unfolding component_loop_Cons inner by simp
  also note ih
  finally show ?case by (simp add: add.assoc)
qed

lemma sum_list_insort_key:
  fixes f :: "'a \<Rightarrow> 'b::comm_monoid_add"
  shows "sum_list (map f (insort_key k x xs)) = f x + sum_list (map f xs)"
  by (induction xs) (simp_all add: add.left_commute)

lemma sum_list_sort_key:
  fixes f :: "'a \<Rightarrow> 'b::comm_monoid_add"
  shows "sum_list (map f (sort_key k xs)) = sum_list (map f xs)"
  by (induction xs) (simp_all add: sum_list_insort_key)

lemma sum_list_processing_order:
  fixes f :: "trace \<Rightarrow> 'b::comm_monoid_add"
  shows "sum_list (map f (processing_order select stream c)) = sum_list (map f (matched select stream c))"
  by (simp add: processing_order_def sum_list_sort_key)

lemma sum_list_real_of_int:
  "(\<Sum>x\<leftarrow>xs. real_of_int (f x)) = real_of_int (\<Sum>x\<leftarrow>xs. f x)"
  by (induction xs) simp_all

lemma sum_list_shift: "(\<Sum>x\<leftarrow>row. x - m) = sum_list row - real (length row) * (m::real)"
  by (induction row) (simp_all add: algebra_simps)

lemma np_mean_centered: "row \<noteq> [] \<Longrightarrow> np_mean (map (\<lambda>x. x - np_mean row) row) = 0"
  by (simp add: np_mean_def sum_list_shift)


lemma case_list_hd: "xs \<noteq> [] \<Longrightarrow> (case xs of [] \<Rightarrow> a | x # rest \<Rightarrow> f x rest) = f (hd xs) (tl xs)"
  by (cases xs) simp_all

lemma fill_array_wellformed:
  assumes wf: "wellformed stream"
  shows "fill_array select stream component_order =
     (concat (map (component_warning select stream) component_order),
      Inr (earliest_start stream, map (filled_row select stream) component_order,
           \<Sum>c\<leftarrow>component_order. component_completeness select stream c))"
proof -
  have s: "stream \<noteq> []" using wf by (simp add: wellformed_def)
  have mn: "py_min (map stats_starttime stream) = Inr (earliest_start stream)"
    using s by (simp add: py_min_Min earliest_start_def)
  have mx: "py_max (map stats_endtime stream) = Inr (latest_end stream)"
    using s by (simp add: py_max_Max latest_end_def)
  note n = sample_count_py_int [OF wf]
  have pos: "0 < sample_count stream" using sample_count_pos [OF wf] by simp
  have rng: "\<forall>t\<in>set stream. 0 \<le> start_offset (earliest_start stream) (stream_rate stream) t
               \<and> start_offset (earliest_start stream) (stream_rate stream) t < sample_count stream"
    using offset_in_range [OF wf] by blast
  have loop: "component_loop select stream (earliest_start stream) (stream_rate stream)
          (sample_count stream) 0 component_order
          (np_zeros (length component_order) (nat (sample_count stream)), 0, []) =
     ([] @ concat (map (component_warning select stream) component_order),
      Inr (fill_rows (\<lambda>c. fold (paste_trace (earliest_start stream) (stream_rate stream) (sample_count stream))
                   (processing_order select stream c)) 0 component_order
             (np_zeros (length component_order) (nat (sample_count stream))),
           0 + (\<Sum>c\<leftarrow>component_order. min 1 ((\<Sum>t\<leftarrow>processing_order select stream c.
                  real_of_int (copy_length (earliest_start stream) (stream_rate stream) (sample_count stream) t))
                    / real_of_int (sample_count stream)))))"
    using rng pos by (rule component_loop_in_range) (simp_all add: np_zeros_def)
  have rows: "fill_rows (\<lambda>c. fold (paste_trace (earliest_start stream) (stream_rate stream) (sample_count stream))
                   (processing_order select stream c)) 0 component_order
             (np_zeros (length component_order) (nat (sample_count stream))) =
        map (filled_row select stream) component_order"
    unfolding np_zeros_def fill_rows_zeros by (simp add: filled_row_def)
  have compl: "(\<Sum>c\<leftarrow>component_order. min 1 ((\<Sum>t\<leftarrow>processing_order select stream c.
                  real_of_int (copy_length (earliest_start stream) (stream_rate stream) (sample_count stream) t))
                    / real_of_int (sample_count stream))) =
         (\<Sum>c\<leftarrow>component_order. component_completeness select stream c)"
    by (simp add: component_completeness_def copied_samples_def sum_list_processing_order
          sum_list_real_of_int)
  show ?thesis
    unfolding fill_array_def mn mx
    using pos loop rows compl
    by (simp add: case_list_hd [OF s] stream_rate_def [symmetric] n Let_def)
qed

lemma stream_to_array_wellformed:
  assumes "wellformed stream" "component_order \<noteq> []"
  shows "stream_to_array select stream component_order =
     (concat (map (component_warning select stream) component_order),
      Inr (earliest_start stream,
           subtract_row_means (map (filled_row select stream) component_order),
           (\<Sum>c\<leftarrow>component_order. component_completeness select stream c)
             / real (length component_order)))"
  using assms(2) by (simp add: stream_to_array_def fill_array_wellformed [OF assms(1)])

subsection \<open>Claims about the identifier normalizer\<close>

text \<open>
  Claim C7. The normalizer is a total function of its input string with no error branch:
  when the split of the input on the dot has exactly 4 parts, the result is the first 3
  parts joined with dots; for every other input, the empty string included, the result is
  the input itself. The three examples of the specification are evaluated as well.
\<close>

theorem normalizer_cases:
  "waveform_id_to_network_station_location s =
     (if length (str_split s) = 4 then str_join (take 3 (str_split s)) else s)
   \<and> waveform_id_to_network_station_location ''NET.STA.LOC.CHA'' = ''NET.STA.LOC''
   \<and> waveform_id_to_network_station_location ''NET.STA'' = ''NET.STA''
   \<and> waveform_id_to_network_station_location '''' = ''''"
  by (simp add: waveform_id_to_network_station_location_def butlast_4)

text \<open>
  Claim C10. The normalizer is idempotent. A 4-part input is mapped to the join of its
  first three parts, none of which holds a dot, so the result splits into exactly those 3
  parts and is passed through; any other input is passed through at once.
\<close>

theorem normalizer_idempotent:
  "waveform_id_to_network_station_location (waveform_id_to_network_station_location s) =
   waveform_id_to_network_station_location s"
proof (cases "length (str_split s) = 4")
  case False
  then show ?thesis by (simp add: waveform_id_to_network_station_location_def)
next
  case True
  let ?ps = "butlast (str_split s)"
  have len: "length ?ps = 3" using True by simp
  have ne: "?ps \<noteq> []"
  proof
    assume "?ps = []"
    then have "length ?ps = 0" by simp
    with len show False by simp
  qed
  have nodot: "\<forall>p \<in> set ?ps. CHR ''.'' \<notin> set p"
    using str_split_no_dot [of _ s] by (auto dest: in_set_butlastD)
  have "str_split (str_join ?ps) = ?ps"
    by (rule str_split_join [OF ne nodot])
  with len True show ?thesis
    by (simp add: waveform_id_to_network_station_location_def)
qed

subsection \<open>The assembler on the example collection\<close>

lemma example_wellformed: "wellformed example_stream"
  by (simp add: wellformed_def example_stream_def example_trace_def)

lemma example_earliest: "earliest_start example_stream = 0"
  by (simp add: earliest_start_def example_stream_def example_trace_def)

lemma example_latest: "latest_end example_stream = 5"
  by (simp add: latest_end_def example_stream_def example_trace_def)

lemma example_rate: "stream_rate example_stream = 1"
  by (simp add: stream_rate_def example_stream_def example_trace_def)

lemma example_samples: "sample_count example_stream = 6"
  by (simp add: sample_count_def example_earliest example_latest example_rate)

lemma example_matched:
  "matched select_channel example_stream CHR ''Z'' =
     [example_trace ''HHZ'' 2 3 [10, 20], example_trace ''HHZ'' 0 3 [1, 2, 3, 4]]"
  "matched select_channel example_stream CHR ''N'' = [example_trace ''HHN'' 1 5 [5, 5, 5, 5, 5]]"
  "matched select_channel example_stream CHR ''E'' = []"
  by (simp_all add: matched_def select_channel_def example_stream_def example_trace_def)

lemma example_offsets:
  "start_offset (earliest_start example_stream) (stream_rate example_stream)
     (example_trace ''HHZ'' 2 3 [10, 20]) = 2"
  "start_offset (earliest_start example_stream) (stream_rate example_stream)
     (example_trace ''HHZ'' 0 3 [1, 2, 3, 4]) = 0"
  "copy_length (earliest_start example_stream) (stream_rate example_stream)
     (sample_count example_stream) (example_trace ''HHZ'' 2 3 [10, 20]) = 2"
  "copy_length (earliest_start example_stream) (stream_rate example_stream)
     (sample_count example_stream) (example_trace ''HHZ'' 0 3 [1, 2, 3, 4]) = 4"
  by (simp_all add: example_earliest example_rate example_samples copy_length_def
        start_offset_def example_trace_def py_int_def)

lemma example_run:
  "stream_to_array select_channel example_stream ''ZNE'' =
     ([Warning ''XX.STA.00.HHZ'' 2],
      Inr (0, [[- (2 / 3), 1 / 3, 4 / 3, 7 / 3, - (5 / 3), - (5 / 3)],
               [- (25 / 6), 5 / 6, 5 / 6, 5 / 6, 5 / 6, 5 / 6],
               [0, 0, 0, 0, 0, 0]],
           11 / 18))"
  by (simp add: stream_to_array_def fill_array_def example_stream_def example_trace_def py_min_def py_max_def py_int_def
     select_channel_def np_zeros_def set_slice_def get_prefix_def slice_bound_def trace_id_def Let_def
     subtract_row_means_def np_mean_def eval_nat_numeral)

lemma example_run_ZE:
  "stream_to_array select_channel example_stream ''ZE'' =
     ([Warning ''XX.STA.00.HHZ'' 2],
      Inr (0, [[- (2 / 3), 1 / 3, 4 / 3, 7 / 3, - (5 / 3), - (5 / 3)],
               [0, 0, 0, 0, 0, 0]],
           1 / 2))"
  by (simp add: stream_to_array_def fill_array_def example_stream_def example_trace_def
        py_min_def py_max_def py_int_def select_channel_def np_zeros_def set_slice_def
        get_prefix_def slice_bound_def trace_id_def Let_def subtract_row_means_def np_mean_def
        eval_nat_numeral)

subsection \<open>Facts about completeness and the processing order\<close>

lemma copied_samples_nonneg:
  assumes wf: "wellformed stream"
  shows "0 \<le> copied_samples select stream c"
  unfolding copied_samples_def
proof (rule sum_list_nonneg)
  fix x
  assume "x \<in> set (map (copy_length (earliest_start stream) (stream_rate stream) (sample_count stream))
                      (matched select stream c))"
  then obtain t where t: "t \<in> set stream"
    and x: "x = copy_length (earliest_start stream) (stream_rate stream) (sample_count stream) t"
    by (auto simp: matched_def)
  show "0 \<le> x"
    unfolding x using offset_in_range [OF wf t] by (rule copy_length_bounds)
qed

lemma component_completeness_bounds:
  assumes wf: "wellformed stream"
  shows "0 \<le> component_completeness select stream c"
    and "component_completeness select stream c \<le> 1"
proof -
  have "0 \<le> real_of_int (copied_samples select stream c) / real_of_int (sample_count stream)"
    using copied_samples_nonneg [OF wf, of select c] sample_count_pos [OF wf] by simp
  then show "0 \<le> component_completeness select stream c"
    by (simp add: component_completeness_def)
  show "component_completeness select stream c \<le> 1"
    by (simp add: component_completeness_def)
qed

lemma component_completeness_missing:
  "matched select stream c = [] \<Longrightarrow> component_completeness select stream c = 0"
  by (simp add: component_completeness_def copied_samples_def)

lemma sum_list_unit_bounds:
  fixes f :: "'a \<Rightarrow> real"
  assumes "\<forall>x\<in>set xs. 0 \<le> f x \<and> f x \<le> 1"
  shows "0 \<le> (\<Sum>x\<leftarrow>xs. f x) \<and> (\<Sum>x\<leftarrow>xs. f x) \<le> real (length xs)"
  using assms by (induction xs) auto

lemma average_bounds:
  assumes wf: "wellformed stream" and ne: "component_order \<noteq> []"
  shows "0 \<le> (\<Sum>c\<leftarrow>component_order. component_completeness select stream c)
               / real (length component_order)"
    and "(\<Sum>c\<leftarrow>component_order. component_completeness select stream c)
               / real (length component_order) \<le> 1"
proof -
  have b: "0 \<le> (\<Sum>c\<leftarrow>component_order. component_completeness select stream c)
         \<and> (\<Sum>c\<leftarrow>component_order. component_completeness select stream c)
             \<le> real (length component_order)"
    by (rule sum_list_unit_bounds) (simp add: component_completeness_bounds [OF wf])
  have pos: "0 < real (length component_order)" using ne by simp
  show "0 \<le> (\<Sum>c\<leftarrow>component_order. component_completeness select stream c)
               / real (length component_order)"
    using b by simp
  show "(\<Sum>c\<leftarrow>component_order. component_completeness select stream c)
               / real (length component_order) \<le> 1"
    using b pos by (simp add: divide_le_eq)
qed

lemma half_when_one_missing:
  assumes wf: "wellformed stream" and two: "length component_order = 2"
    and miss: "\<exists>c\<in>set component_order. matched select stream c = []"
  shows "(\<Sum>c\<leftarrow>component_order. component_completeness select stream c)
           / real (length component_order) \<le> 1 / 2"
proof -
  from two obtain a b where ab: "component_order = [a, b]"
    by (cases component_order; cases "tl component_order") auto
  note bd = component_completeness_bounds [OF wf, of select]
  from miss ab have "component_completeness select stream a = 0
                   \<or> component_completeness select stream b = 0"
    by (auto simp: component_completeness_missing)
  then have "component_completeness select stream a + component_completeness select stream b \<le> 1"
    using bd(1) [of a] bd(2) [of a] bd(1) [of b] bd(2) [of b] by auto
  then show ?thesis by (simp add: ab)
qed

lemma filled_row_length:
  assumes wf: "wellformed stream"
  shows "length (filled_row select stream c) = nat (sample_count stream)"
  unfolding filled_row_def
proof (rule fold_paste_length)
  show "\<forall>t\<in>set (processing_order select stream c).
          0 \<le> start_offset (earliest_start stream) (stream_rate stream) t
          \<and> start_offset (earliest_start stream) (stream_rate stream) t < sample_count stream"
    using offset_in_range [OF wf] by (auto simp: processing_order_def matched_def)
qed simp




lemma centered_row_sum:
  "row \<noteq> [] \<Longrightarrow> sum_list (map (\<lambda>x. x - np_mean row) row) = 0"
  by (simp add: np_mean_def sum_list_shift)

lemma stream_to_array_warnings:
  "fst (stream_to_array select stream component_order) = fst (fill_array select stream component_order)"
  by (simp add: stream_to_array_def split: prod.split sum.split)

lemma stream_to_array_returns:
  "snd (stream_to_array select stream component_order) = Inr r \<Longrightarrow>
   \<exists>r'. snd (fill_array select stream component_order) = Inr r'"
  by (auto simp: stream_to_array_def split: prod.splits sum.splits if_splits)

lemma component_loop_warnings:
  "\<exists>k. k \<le> length cs
     \<and> fst (component_loop select stream st sr samples c_idx cs (data, compl, ws)) =
         ws @ concat (map (component_warning select stream) (take k cs))
     \<and> ((\<exists>r. snd (component_loop select stream st sr samples c_idx cs (data, compl, ws)) = Inr r)
          \<longrightarrow> k = length cs)"
proof (induction cs arbitrary: c_idx data compl ws)
  case Nil
  then show ?case by simp
next
  case (Cons c cs)
  let ?w = "ws @ component_warning select stream c"
  show ?case
  proof (cases "copy_traces st sr samples c_idx (processing_order select stream c) (data, 0)")
    case (Inl e)
    have "component_loop select stream st sr samples c_idx (c # cs) (data, compl, ws) = (?w, Inl e)"
      unfolding component_loop_Cons Inl by simp
    then show ?thesis by (intro exI [of _ 1]) simp
  next
    case (Inr p)
    obtain data' cc where p: "p = (data', cc)" by (cases p)
    show ?thesis
    proof (cases "samples = 0")
      case True
      have "component_loop select stream st sr samples c_idx (c # cs) (data, compl, ws) =
            (?w, Inl ZeroDivisionError)"
        unfolding component_loop_Cons Inr p using True by simp
      then show ?thesis by (intro exI [of _ 1]) simp
    next
      case False
      have step: "component_loop select stream st sr samples c_idx (c # cs) (data, compl, ws) =
            component_loop select stream st sr samples (Suc c_idx) cs
              (data', compl + min 1 (cc / real_of_int samples), ?w)"
        unfolding component_loop_Cons Inr p using False by simp
      from Cons.IH [of "Suc c_idx" data' "compl + min 1 (cc / real_of_int samples)" ?w]
      obtain k where k: "k \<le> length cs"
        "fst (component_loop select stream st sr samples (Suc c_idx) cs
               (data', compl + min 1 (cc / real_of_int samples), ?w)) =
           ?w @ concat (map (component_warning select stream) (take k cs))"
        "(\<exists>r. snd (component_loop select stream st sr samples (Suc c_idx) cs
               (data', compl + min 1 (cc / real_of_int samples), ?w)) = Inr r) \<longrightarrow> k = length cs"
        by blast
      show ?thesis
        unfolding step using k by (intro exI [of _ "Suc k"]) simp
    qed
  qed
qed

lemma fill_array_warnings:
  "\<exists>k. k \<le> length component_order
     \<and> fst (fill_array select stream component_order) =
         concat (map (component_warning select stream) (take k component_order))
     \<and> ((\<exists>r. snd (fill_array select stream component_order) = Inr r)
          \<longrightarrow> k = length component_order)"
proof (cases "\<exists>st en x rest. py_min (map stats_starttime stream) = Inr st
          \<and> py_max (map stats_endtime stream) = Inr en \<and> stream = x # rest
          \<and> \<not> py_int ((en - st) * stats_sampling_rate x) + 1 < 0")
  case False
  then have "fill_array select stream component_order = ([], snd (fill_array select stream component_order))
             \<and> (\<forall>r. snd (fill_array select stream component_order) \<noteq> Inr r)"
    by (auto simp: fill_array_def Let_def split: sum.splits list.splits)
  then show ?thesis by (intro exI [of _ 0]) (metis concat.simps(1) fst_conv le0 list.simps(8) take0)
next
  case True
  then obtain st en x rest where h: "py_min (map stats_starttime stream) = Inr st"
    "py_max (map stats_endtime stream) = Inr en" "stream = x # rest"
    "\<not> py_int ((en - st) * stats_sampling_rate x) + 1 < 0"
    by blast
  let ?n = "py_int ((en - st) * stats_sampling_rate x) + 1"
  let ?loop = "component_loop select stream st (stats_sampling_rate x) ?n 0 component_order
                 (np_zeros (length component_order) (nat ?n), 0, [])"
  have fa: "fill_array select stream component_order =
        (case ?loop of (warnings, Inl e) \<Rightarrow> (warnings, Inl e)
         | (warnings, Inr (data, completeness)) \<Rightarrow> (warnings, Inr (st, data, completeness)))"
    unfolding fill_array_def h(1,2) using h(4) by (simp add: h(3) Let_def)
  have f: "fst (fill_array select stream component_order) = fst ?loop"
    unfolding fa by (simp split: prod.split sum.split)
  have s: "(\<exists>r. snd (fill_array select stream component_order) = Inr r) \<longrightarrow> (\<exists>r. snd ?loop = Inr r)"
    unfolding fa by (auto split: prod.splits sum.splits)
  from component_loop_warnings [of component_order select stream st "stats_sampling_rate x" ?n 0
         "np_zeros (length component_order) (nat ?n)" 0 "[]"]
  show ?thesis unfolding f using s by auto
qed

subsection \<open>Claims about the assembler\<close>

text \<open>
  Claim C1. For a well-formed collection and a non-empty component order the assembler
  returns, and the completeness it returns is the average over the requested components of
  \<open>min 1 (copied samples of the component / output sample count)\<close>. The average lies
  between 0 and 1, a component that matches no trace contributes 0, and with two requested
  components of which one matches no trace the result is at most one half.
\<close>

theorem overall_completeness:
  "wellformed stream \<Longrightarrow> component_order \<noteq> [] \<Longrightarrow>
   (\<exists>ws out. stream_to_array select stream component_order =
        (ws, Inr (earliest_start stream, out,
                  (\<Sum>c\<leftarrow>component_order. component_completeness select stream c)
                    / real (length component_order))))
   \<and> 0 \<le> (\<Sum>c\<leftarrow>component_order. component_completeness select stream c)
             / real (length component_order)
   \<and> (\<Sum>c\<leftarrow>component_order. component_completeness select stream c)
             / real (length component_order) \<le> 1
   \<and> (\<forall>c. matched select stream c = [] \<longrightarrow> component_completeness select stream c = 0)
   \<and> (length component_order = 2 \<and> (\<exists>c\<in>set component_order. matched select stream c = [])
        \<longrightarrow> (\<Sum>c\<leftarrow>component_order. component_completeness select stream c)
               / real (length component_order) \<le> 1 / 2)"
proof (intro conjI allI impI)
  assume wf: "wellformed stream" and ne: "component_order \<noteq> []"
  show "\<exists>ws out. stream_to_array select stream component_order =
        (ws, Inr (earliest_start stream, out,
                  (\<Sum>c\<leftarrow>component_order. component_completeness select stream c)
                    / real (length component_order)))"
    using stream_to_array_wellformed [OF wf ne] by blast
  show "0 \<le> (\<Sum>c\<leftarrow>component_order. component_completeness select stream c)
             / real (length component_order)"
    using wf ne by (rule average_bounds)
  show "(\<Sum>c\<leftarrow>component_order. component_completeness select stream c)
             / real (length component_order) \<le> 1"
    using wf ne by (rule average_bounds)
next
  fix c
  assume "matched select stream c = []"
  then show "component_completeness select stream c = 0"
    by (rule component_completeness_missing)
next
  assume wf: "wellformed stream"
    and h: "length component_order = 2 \<and> (\<exists>c\<in>set component_order. matched select stream c = [])"
  show "(\<Sum>c\<leftarrow>component_order. component_completeness select stream c)
               / real (length component_order) \<le> 1 / 2"
    using wf h by (intro half_when_one_missing) simp_all
qed

theorem overall_completeness_witness:
  "wellformed example_stream
   \<and> stream_to_array select_channel example_stream ''ZE'' =
       ([Warning ''XX.STA.00.HHZ'' 2],
        Inr (0, [[- (2 / 3), 1 / 3, 4 / 3, 7 / 3, - (5 / 3), - (5 / 3)],
                 [0, 0, 0, 0, 0, 0]],
             1 / 2))
   \<and> (\<Sum>c\<leftarrow>''ZE''. component_completeness select_channel example_stream c)
        / real (length ''ZE'') = 1 / 2
   \<and> matched select_channel example_stream CHR ''E'' = []
   \<and> component_completeness select_channel example_stream CHR ''E'' = 0"
  using overall_completeness [of example_stream "''ZE''" select_channel]
    example_wellformed example_run_ZE example_matched(3)
  by auto





text \<open>
  Claim C4. The array returned is the filled array with the mean of each row, taken over
  all samples of the row (the zeros of the gaps included), subtracted from every sample of
  that row; in the exact arithmetic of the model every row returned then has mean 0.
\<close>

theorem rows_have_zero_mean:
  "wellformed stream \<Longrightarrow> component_order \<noteq> [] \<Longrightarrow>
   (\<exists>ws compl. stream_to_array select stream component_order =
        (ws, Inr (earliest_start stream,
                  map (\<lambda>row. map (\<lambda>x. x - np_mean row) row)
                    (map (filled_row select stream) component_order),
                  compl)))
   \<and> (\<forall>row \<in> set (map (\<lambda>row. map (\<lambda>x. x - np_mean row) row)
                       (map (filled_row select stream) component_order)).
         np_mean row = 0 \<and> sum_list row = 0)"
proof (intro conjI ballI)
  assume wf: "wellformed stream" and ne: "component_order \<noteq> []"
  show "\<exists>ws compl. stream_to_array select stream component_order =
        (ws, Inr (earliest_start stream,
                  map (\<lambda>row. map (\<lambda>x. x - np_mean row) row)
                    (map (filled_row select stream) component_order),
                  compl))"
    using stream_to_array_wellformed [OF wf ne, of select]
    by (simp add: subtract_row_means_def)
next
  fix row
  assume wf: "wellformed stream"
    and "row \<in> set (map (\<lambda>row. map (\<lambda>x. x - np_mean row) row)
                       (map (filled_row select stream) component_order))"
  then obtain c where row: "row = map (\<lambda>x. x - np_mean (filled_row select stream c))
                                   (filled_row select stream c)"
    by auto
  have "length (filled_row select stream c) = nat (sample_count stream)"
    using wf by (rule filled_row_length)
  then have ne: "filled_row select stream c \<noteq> []"
    using sample_count_pos [OF wf] by auto
  show "np_mean row = 0" unfolding row using ne by (rule np_mean_centered)
  show "sum_list row = 0" unfolding row using ne by (rule centered_row_sum)
qed

theorem rows_have_zero_mean_witness:
  "wellformed example_stream
   \<and> stream_to_array select_channel example_stream ''ZNE'' =
       ([Warning ''XX.STA.00.HHZ'' 2],
        Inr (0, [[- (2 / 3), 1 / 3, 4 / 3, 7 / 3, - (5 / 3), - (5 / 3)],
                 [- (25 / 6), 5 / 6, 5 / 6, 5 / 6, 5 / 6, 5 / 6],
                 [0, 0, 0, 0, 0, 0]],
             11 / 18))
   \<and> np_mean [- (2 / 3), 1 / 3, 4 / 3, 7 / 3, - (5 / 3), - (5 / 3)] = 0
   \<and> np_mean [- (25 / 6), 5 / 6, 5 / 6, 5 / 6, 5 / 6, 5 / 6] = 0
   \<and> np_mean [0, 0, 0, 0, 0, 0] = 0"
proof -
  note inst = rows_have_zero_mean [of example_stream "''ZNE''" select_channel, OF example_wellformed]
  let ?rows = "map (\<lambda>row. map (\<lambda>x. x - np_mean row) row)
                 (map (filled_row select_channel example_stream) ''ZNE'')"
  have ne: "''ZNE'' \<noteq> []" by simp
  from inst [OF ne] obtain ws compl where
    run: "stream_to_array select_channel example_stream ''ZNE'' =
        (ws, Inr (earliest_start example_stream, ?rows, compl))"
    by blast
  from inst [OF ne] have zero: "\<forall>row \<in> set ?rows. np_mean row = 0 \<and> sum_list row = 0"
    by blast
  note eq = trans [OF run [symmetric] example_run]
  from eq have rows: "?rows =
       [[- (2 / 3), 1 / 3, 4 / 3, 7 / 3, - (5 / 3), - (5 / 3)],
        [- (25 / 6), 5 / 6, 5 / 6, 5 / 6, 5 / 6, 5 / 6],
        [0, 0, 0, 0, 0, 0]]"
    by (simp only: prod.inject sum.inject)
  have m: "np_mean [- (2 / 3), 1 / 3, 4 / 3, 7 / 3, - (5 / 3), - (5 / 3)] = 0"
    "np_mean [- (25 / 6), 5 / 6, 5 / 6, 5 / 6, 5 / 6, 5 / 6] = 0"
    "np_mean [0, 0, 0, 0, 0, 0] = 0"
    using zero unfolding rows by (simp_all only: list.set ball_simps insert_iff)
  show ?thesis
    using example_wellformed example_run m by (simp only: simp_thms)
qed

text \<open>
  Counterexample to claim C8 as stated: on the example collection the record names the
  start time 2 of the first trace of the collection, while the earliest start is 0.
\<close>

theorem warning_names_first_trace_not_earliest_start:
  "fst (stream_to_array select_channel example_stream ''ZNE'') = [Warning ''XX.STA.00.HHZ'' 2]
   \<and> earliest_start example_stream = 0
   \<and> fst (stream_to_array select_channel example_stream ''ZNE'') \<noteq>
       [Warning (trace_id (hd (matched select_channel example_stream CHR ''Z'')))
          (earliest_start example_stream)]"
  by (simp add: example_run example_earliest)

text \<open>
  Claim C8, amended. The logger receives, for the components processed and in their order,
  exactly one record for each component that matches more than one trace and none for the
  others (all requested components are processed when the call returns, and always for a
  well-formed collection). The record names the identifier of the first matched trace and
  the start time of the first trace of the collection, \<open>stream[0]\<close>, which need not be the
  earliest start.
\<close>

theorem warning_per_duplicated_component:
  "(\<exists>k. k \<le> length component_order
       \<and> fst (stream_to_array select stream component_order) =
           concat (map (component_warning select stream) (take k component_order))
       \<and> ((\<exists>r. snd (stream_to_array select stream component_order) = Inr r)
            \<longrightarrow> k = length component_order))
   \<and> (wellformed stream \<longrightarrow>
        fst (stream_to_array select stream component_order) =
          concat (map (component_warning select stream) component_order))
   \<and> (\<forall>c. component_warning select stream c =
          (if length (matched select stream c) > 1
           then [Warning (trace_id (hd (matched select stream c))) (stats_starttime (hd stream))]
           else []))"
proof (intro conjI allI impI)
  from fill_array_warnings [of component_order select stream]
  obtain k where k: "k \<le> length component_order"
    "fst (fill_array select stream component_order) =
       concat (map (component_warning select stream) (take k component_order))"
    "(\<exists>r. snd (fill_array select stream component_order) = Inr r) \<longrightarrow> k = length component_order"
    by blast
  have "(\<exists>r. snd (stream_to_array select stream component_order) = Inr r)
          \<longrightarrow> k = length component_order"
    using k(3) stream_to_array_returns [of select stream component_order] by blast
  with k(1,2) show "\<exists>k. k \<le> length component_order
       \<and> fst (stream_to_array select stream component_order) =
           concat (map (component_warning select stream) (take k component_order))
       \<and> ((\<exists>r. snd (stream_to_array select stream component_order) = Inr r)
            \<longrightarrow> k = length component_order)"
    unfolding stream_to_array_warnings by blast
next
  assume wf: "wellformed stream"
  show "fst (stream_to_array select stream component_order) =
          concat (map (component_warning select stream) component_order)"
    unfolding stream_to_array_warnings by (simp add: fill_array_wellformed [OF wf])
next
  fix c
  show "component_warning select stream c =
          (if length (matched select stream c) > 1
           then [Warning (trace_id (hd (matched select stream c))) (stats_starttime (hd stream))]
           else [])"
    by (simp add: component_warning_def)
qed

theorem warning_per_duplicated_component_witness:
  "wellformed example_stream
   \<and> snd (stream_to_array select_channel example_stream ''ZNE'') =
       Inr (0, [[- (2 / 3), 1 / 3, 4 / 3, 7 / 3, - (5 / 3), - (5 / 3)],
                [- (25 / 6), 5 / 6, 5 / 6, 5 / 6, 5 / 6, 5 / 6],
                [0, 0, 0, 0, 0, 0]],
            11 / 18)
   \<and> fst (stream_to_array select_channel example_stream ''ZNE'') =
       concat (map (component_warning select_channel example_stream) ''ZNE'')
   \<and> concat (map (component_warning select_channel example_stream) ''ZNE'') =
       [Warning ''XX.STA.00.HHZ'' 2]
   \<and> length (matched select_channel example_stream CHR ''Z'') = 2
   \<and> trace_id (hd (matched select_channel example_stream CHR ''Z'')) = ''XX.STA.00.HHZ''
   \<and> stats_starttime (hd example_stream) = 2"
proof -
  note inst = warning_per_duplicated_component [of "''ZNE''" select_channel example_stream]
  from inst example_wellformed
  have w: "fst (stream_to_array select_channel example_stream ''ZNE'') =
       concat (map (component_warning select_channel example_stream) ''ZNE'')"
    by blast
  have v: "fst (stream_to_array select_channel example_stream ''ZNE'') = [Warning ''XX.STA.00.HHZ'' 2]"
    by (simp add: example_run)
  have "trace_id (hd (matched select_channel example_stream CHR ''Z'')) = ''XX.STA.00.HHZ''"
    by (simp add: example_matched trace_id_def example_trace_def)
  moreover have "stats_starttime (hd example_stream) = 2"
    by (simp add: example_stream_def example_trace_def)
  moreover have "length (matched select_channel example_stream CHR ''Z'') = 2"
    by (simp add: example_matched)
  ultimately show ?thesis
    using example_wellformed w v example_run by (simp only: snd_conv simp_thms)
qed

text \<open>
  Claim C9. For every trace of a well-formed collection the start offset lies between 0
  and the output sample count minus 1, the clamped copy length is not negative, and offset
  plus length is at most the output sample count; so the iteration of the inner loop for
  the trace raises nothing and writes the positions \<open>offset..<offset + length\<close> of a row of
  that many samples, whose length it keeps.
\<close>

theorem writes_within_bounds:
  "wellformed stream \<Longrightarrow> t \<in> set stream \<Longrightarrow>
   0 \<le> start_offset (earliest_start stream) (stream_rate stream) t
   \<and> start_offset (earliest_start stream) (stream_rate stream) t \<le> sample_count stream - 1
   \<and> 0 \<le> copy_length (earliest_start stream) (stream_rate stream) (sample_count stream) t
   \<and> start_offset (earliest_start stream) (stream_rate stream) t
       + copy_length (earliest_start stream) (stream_rate stream) (sample_count stream) t
       \<le> sample_count stream
   \<and> (\<forall>data c_idx c_completeness.
        c_idx < length data \<and> length (data ! c_idx) = nat (sample_count stream) \<longrightarrow>
        copy_traces (earliest_start stream) (stream_rate stream) (sample_count stream) c_idx [t]
            (data, c_completeness) =
          Inr (data[c_idx :=
                 paste_trace (earliest_start stream) (stream_rate stream) (sample_count stream) t
                   (data ! c_idx)],
               c_completeness
                 + real_of_int (copy_length (earliest_start stream) (stream_rate stream)
                                  (sample_count stream) t))
        \<and> length (paste_trace (earliest_start stream) (stream_rate stream) (sample_count stream) t
                     (data ! c_idx)) = nat (sample_count stream))"
proof -
  assume wf: "wellformed stream" and t: "t \<in> set stream"
  let ?st = "earliest_start stream" and ?sr = "stream_rate stream" and ?n = "sample_count stream"
  note r = offset_in_range [OF wf t]
  note b = copy_length_bounds [OF r]
  have loop: "copy_traces ?st ?sr ?n c_idx [t] (data, cc) =
          Inr (data[c_idx := paste_trace ?st ?sr ?n t (data ! c_idx)],
               cc + real_of_int (copy_length ?st ?sr ?n t))
        \<and> length (paste_trace ?st ?sr ?n t (data ! c_idx)) = nat ?n"
    if "c_idx < length data \<and> length (data ! c_idx) = nat ?n" for data c_idx cc
  proof -
    have "\<forall>u\<in>set [t]. 0 \<le> start_offset ?st ?sr u \<and> start_offset ?st ?sr u < ?n"
      using r by simp
    from copy_traces_in_range [OF this, of c_idx data cc] that
    show ?thesis using paste_trace_length [OF r, of "data ! c_idx"] by simp
  qed
  show ?thesis using r b(1,2) loop by simp
qed

theorem writes_within_bounds_witness:
  "wellformed example_stream
   \<and> example_trace ''HHZ'' 2 3 [10, 20] \<in> set example_stream
   \<and> start_offset (earliest_start example_stream) (stream_rate example_stream)
        (example_trace ''HHZ'' 2 3 [10, 20]) = 2
   \<and> copy_length (earliest_start example_stream) (stream_rate example_stream)
        (sample_count example_stream) (example_trace ''HHZ'' 2 3 [10, 20]) = 2
   \<and> sample_count example_stream = 6
   \<and> copy_traces (earliest_start example_stream) (stream_rate example_stream)
        (sample_count example_stream) 0 [example_trace ''HHZ'' 2 3 [10, 20]]
        ([[0, 0, 0, 0, 0, 0]], 0) =
       Inr ([[0, 0, 10, 20, 0, 0]], 2)"
proof -
  let ?t = "example_trace ''HHZ'' 2 3 [10, 20]"
  have mem: "?t \<in> set example_stream" by (simp add: example_stream_def)
  note inst = writes_within_bounds [OF example_wellformed mem]
  have pre: "(0::nat) < length [[0, 0, 0, 0, 0, 0 :: real]]
     \<and> length ([[0, 0, 0, 0, 0, 0 :: real]] ! 0) = nat (sample_count example_stream)"
    by (simp add: example_samples)
  have p: "paste_trace (earliest_start example_stream) (stream_rate example_stream)
                (sample_count example_stream) ?t [0, 0, 0, 0, 0, 0] = [0, 0, 10, 20, 0, 0]"
    by (simp add: paste_trace_def example_offsets Let_def eval_nat_numeral)
       (simp add: example_trace_def)
  from inst pre have
    "copy_traces (earliest_start example_stream) (stream_rate example_stream)
        (sample_count example_stream) 0 [?t] ([[0, 0, 0, 0, 0, 0]], 0) =
       Inr ([[0, 0, 0, 0, 0, 0]][0 :=
              paste_trace (earliest_start example_stream) (stream_rate example_stream)
                (sample_count example_stream) ?t ([[0, 0, 0, 0, 0, 0]] ! 0)],
            0 + real_of_int (copy_length (earliest_start example_stream)
                 (stream_rate example_stream) (sample_count example_stream) ?t))"
    by blast
  then have c: "copy_traces (earliest_start example_stream) (stream_rate example_stream)
        (sample_count example_stream) 0 [?t] ([[0, 0, 0, 0, 0, 0]], 0) =
       Inr ([[0, 0, 10, 20, 0, 0]], 2)"
    unfolding nth_Cons_0 p example_offsets(3) by (simp del: copy_traces.simps)
  show ?thesis
    using example_wellformed mem example_offsets(1,3) example_samples c
    by (simp only: simp_thms)
qed

subsection \<open>Facts about the spike detector\<close>

lemma np_quantile_defined:
  "\<forall>row\<in>set a. \<exists>v. row_quantile row q = Inr v \<Longrightarrow>
   np_quantile row_quantile a q = Inr (map (\<lambda>row. projr (row_quantile row q)) a)"
  by (induction a) auto

lemma map2_same: "map2 f xs (map g xs) = map (\<lambda>x. f x (g x)) xs"
  by (induction xs) simp_all

lemma np_any_greater:
  "np_any (np_greater data (map (\<lambda>v. v * factor) (map g (np_abs data)))) \<longleftrightarrow>
   (\<exists>i<length data. \<exists>j<length (data ! i). g (map abs (data ! i)) * factor < data ! i ! j)"
proof -
  have "np_greater data (map (\<lambda>v. v * factor) (map g (np_abs data))) =
        map (\<lambda>row. map (\<lambda>x. g (map abs row) * factor < x) row) data"
    using map2_same [of "\<lambda>row v. map (\<lambda>x. v < x) row" data "\<lambda>row. g (map abs row) * factor"]
    by (simp add: np_greater_def np_abs_def comp_def)
  then have "np_any (np_greater data (map (\<lambda>v. v * factor) (map g (np_abs data)))) \<longleftrightarrow>
        (\<exists>row\<in>set data. \<exists>x\<in>set row. g (map abs row) * factor < x)"
    by (simp add: np_any_def list_ex_iff)
  also have "\<dots> \<longleftrightarrow>
        (\<exists>i<length data. \<exists>j<length (data ! i). g (map abs (data ! i)) * factor < data ! i ! j)"
    by (metis in_set_conv_nth)
  finally show ?thesis .
qed

lemma example_quantile:
  "linear_quantile (map abs [1, 2, 3, 50]) (1 / 2) = Inr (5 / 2)"
  "linear_quantile (map abs [1, - 60, 2, 3]) (1 / 2) = Inr (5 / 2)"
  by (simp_all add: linear_quantile_def Let_def eval_nat_numeral)

lemma example_spikes:
  "trace_has_spikes linear_quantile [[1, 2, 3, 50], [1, - 60, 2, 3]] 10 (1 / 2) = Inr True"
  "trace_has_spikes linear_quantile [[1, - 60, 2, 3]] 10 (1 / 2) = Inr False"
  using example_quantile
  by (simp_all add: trace_has_spikes_def np_abs_def np_greater_def np_any_def)

subsection \<open>Claims about the spike detector and the rotator\<close>

text \<open>
  Claim C6. Whenever the quantile of every row is defined (numpy raises for none of them,
  as for a quantile in \<open>(0, 1)\<close> and rows that have samples), the spike detector returns
  true if and only if some sample's raw, signed value is strictly greater than the quantile
  of the absolute values of its row times the factor; so it returns false for every array
  in which no sample exceeds that bound.
\<close>

theorem spike_iff_sample_exceeds:
  "\<forall>row\<in>set data. \<exists>v. row_quantile (map abs row) quantile = Inr v \<Longrightarrow>
   trace_has_spikes row_quantile data factor quantile =
     Inr (\<exists>i<length data. \<exists>j<length (data ! i). \<exists>v.
            row_quantile (map abs (data ! i)) quantile = Inr v \<and> v * factor < data ! i ! j)
   \<and> ((\<forall>i<length data. \<forall>j<length (data ! i). \<forall>v.
          row_quantile (map abs (data ! i)) quantile = Inr v \<longrightarrow> data ! i ! j \<le> v * factor)
        \<longrightarrow> trace_has_spikes row_quantile data factor quantile = Inr False)"
proof -
  assume def: "\<forall>row\<in>set data. \<exists>v. row_quantile (map abs row) quantile = Inr v"
  let ?g = "\<lambda>row. projr (row_quantile row quantile)"
  have "\<forall>row\<in>set (np_abs data). \<exists>v. row_quantile row quantile = Inr v"
    using def by (simp add: np_abs_def)
  then have q: "np_quantile row_quantile (np_abs data) quantile = Inr (map ?g (np_abs data))"
    by (rule np_quantile_defined)
  have v: "(\<exists>v. row_quantile (map abs (data ! i)) quantile = Inr v \<and> v * factor < x)
           \<longleftrightarrow> ?g (map abs (data ! i)) * factor < x" if "i < length data" for i x
  proof -
    from def that obtain w where "row_quantile (map abs (data ! i)) quantile = Inr w"
      by (meson nth_mem)
    then show ?thesis by simp
  qed
  have "np_any (np_greater data (map (\<lambda>v. v * factor) (map ?g (np_abs data)))) \<longleftrightarrow>
        (\<exists>i<length data. \<exists>j<length (data ! i). ?g (map abs (data ! i)) * factor < data ! i ! j)"
    by (rule np_any_greater)
  also have "\<dots> \<longleftrightarrow> (\<exists>i<length data. \<exists>j<length (data ! i). \<exists>v.
            row_quantile (map abs (data ! i)) quantile = Inr v \<and> v * factor < data ! i ! j)"
    by (simp add: v cong: conj_cong)
  finally have main: "trace_has_spikes row_quantile data factor quantile =
     Inr (\<exists>i<length data. \<exists>j<length (data ! i). \<exists>v.
            row_quantile (map abs (data ! i)) quantile = Inr v \<and> v * factor < data ! i ! j)"
    unfolding trace_has_spikes_def q by (simp only: sum.case)
  moreover have "trace_has_spikes row_quantile data factor quantile = Inr False"
    if "\<forall>i<length data. \<forall>j<length (data ! i). \<forall>v.
          row_quantile (map abs (data ! i)) quantile = Inr v \<longrightarrow> data ! i ! j \<le> v * factor"
    unfolding main using that by (auto simp: not_less [symmetric])
  ultimately show ?thesis by blast
qed

theorem spike_iff_sample_exceeds_witness:
  "linear_quantile (map abs [1, 2, 3, 50]) (1 / 2) = Inr (5 / 2)
   \<and> linear_quantile (map abs [1, - 60, 2, 3]) (1 / 2) = Inr (5 / 2)
   \<and> trace_has_spikes linear_quantile [[1, 2, 3, 50], [1, - 60, 2, 3]] 10 (1 / 2) = Inr True
   \<and> (\<exists>i<length [[1, 2, 3, 50], [1, - 60, 2, 3 :: real]].
        \<exists>j<length ([[1, 2, 3, 50], [1, - 60, 2, 3 :: real]] ! i). \<exists>v.
          linear_quantile (map abs ([[1, 2, 3, 50], [1, - 60, 2, 3]] ! i)) (1 / 2) = Inr v
          \<and> v * 10 < [[1, 2, 3, 50], [1, - 60, 2, 3]] ! i ! j)"
proof -
  have def: "\<forall>row\<in>set [[1, 2, 3, 50], [1, - 60, 2, 3 :: real]].
               \<exists>v. linear_quantile (map abs row) (1 / 2) = Inr v"
    using example_quantile unfolding list.set by blast
  note inst = spike_iff_sample_exceeds
    [of "[[1, 2, 3, 50], [1, - 60, 2, 3]]" linear_quantile "1 / 2" 10, OF def, THEN conjunct1]
  from trans [OF inst [symmetric] example_spikes(1)]
  have "\<exists>i<length [[1, 2, 3, 50], [1, - 60, 2, 3 :: real]].
        \<exists>j<length ([[1, 2, 3, 50], [1, - 60, 2, 3 :: real]] ! i). \<exists>v.
          linear_quantile (map abs ([[1, 2, 3, 50], [1, - 60, 2, 3]] ! i)) (1 / 2) = Inr v
          \<and> v * 10 < [[1, 2, 3, 50], [1, - 60, 2, 3]] ! i ! j"
    by (simp only: sum.inject simp_thms)
  then show ?thesis
    using example_quantile example_spikes(1) by (simp only: simp_thms)
qed




end
